theory Spec2Isabelle
  imports Main
begin

section \<open>Errors\<close>

text \<open>
  The exceptions that the modelled code of \<^verbatim>\<open>node.py\<close> can raise. A function that may
  raise returns \<open>error + 'a\<close>, with \<open>Inl\<close> for the exception.
\<close>

datatype error =
    AssertionError
  | TypeError
  | AttributeError
  | ValueError
  | KeyError
  | RecursionError
  | CircularDependencyError

section \<open>Filters\<close>

text \<open>
  \<^verbatim>\<open>BaseFilter\<close>, \<^verbatim>\<open>AndFilter\<close> and \<^verbatim>\<open>OrFilter\<close>. A filter holds a key and a value, or a
  list of sub-filters. The matched objects are values of a linearly ordered type \<open>'v\<close>;
  \<^verbatim>\<open>getattr(value, parsed_key, None)\<close> is the parameter \<open>ga\<close>, which answers \<open>None\<close> for
  a missing (or \<^verbatim>\<open>None\<close>-valued) attribute.
\<close>

datatype 'v filter =
    BaseFilter string 'v
  | AndFilter "'v filter list"
  | OrFilter "'v filter list"

text \<open>\<^verbatim>\<open>key.split("__")[0]\<close>: the part of the key before the first \<^verbatim>\<open>__\<close>.\<close>

fun parse_key :: "string \<Rightarrow> string" where
  "parse_key [] = []"
| "parse_key [c] = [c]"
| "parse_key (c # d # cs) =
     (if c = CHR ''_'' \<and> d = CHR ''_'' then [] else c # parse_key (d # cs))"

definition endswith :: "string \<Rightarrow> string \<Rightarrow> bool" where
  "endswith s suf = (length suf \<le> length s \<and> drop (length s - length suf) s = suf)"

text \<open>\<^verbatim>\<open>BaseFilter.__init__(**query)\<close>: exactly one keyword criterion.\<close>

definition BaseFilter_init :: "(string \<times> 'v) list \<Rightarrow> error + 'v filter" where
  "BaseFilter_init query =
     (case query of
        [(key, val)] \<Rightarrow> Inr (BaseFilter key val)
      | _ \<Rightarrow> Inl AssertionError)"

text \<open>
  \<^verbatim>\<open>AndFilter.__init__(filters, **query)\<close>: one \<^verbatim>\<open>BaseFilter\<close> is appended to the given
  list for every keyword criterion. \<^verbatim>\<open>OrFilter\<close> inherits the constructor.
\<close>

fun append_query :: "'v filter list \<Rightarrow> (string \<times> 'v) list \<Rightarrow> error + 'v filter list" where
  "append_query filters [] = Inr filters"
| "append_query filters (kv # query) =
     (case BaseFilter_init [kv] of
        Inl e \<Rightarrow> Inl e
      | Inr f \<Rightarrow> append_query (filters @ [f]) query)"

definition AndFilter_init :: "'v filter list \<Rightarrow> (string \<times> 'v) list \<Rightarrow> error + 'v filter" where
  "AndFilter_init filters query =
     (case append_query filters query of Inl e \<Rightarrow> Inl e | Inr fs \<Rightarrow> Inr (AndFilter fs))"

definition OrFilter_init :: "'v filter list \<Rightarrow> (string \<times> 'v) list \<Rightarrow> error + 'v filter" where
  "OrFilter_init filters query =
     (case append_query filters query of Inl e \<Rightarrow> Inl e | Inr fs \<Rightarrow> Inr (OrFilter fs))"

text \<open>
  \<^verbatim>\<open>match\<close>. The composite loops start from \<^verbatim>\<open>True\<close> (\<^verbatim>\<open>False\<close>) and combine every
  sub-filter's answer with \<^verbatim>\<open>&=\<close> (\<^verbatim>\<open>|=\<close>), without short-circuit.
\<close>

fun match :: "('v::linorder \<Rightarrow> string \<Rightarrow> 'v option) \<Rightarrow> 'v filter \<Rightarrow> 'v \<Rightarrow> bool"
  and match_and :: "('v \<Rightarrow> string \<Rightarrow> 'v option) \<Rightarrow> 'v filter list \<Rightarrow> 'v \<Rightarrow> bool \<Rightarrow> bool"
  and match_or :: "('v \<Rightarrow> string \<Rightarrow> 'v option) \<Rightarrow> 'v filter list \<Rightarrow> 'v \<Rightarrow> bool \<Rightarrow> bool"
where
  "match ga (BaseFilter key val) x =
     (case (if parse_key key \<noteq> ''_self'' then ga x (parse_key key) else Some x) of
        None \<Rightarrow> False
      | Some y \<Rightarrow>
          if endswith key ''__gt'' then y > val
          else if endswith key ''__gte'' then y \<ge> val
          else if endswith key ''__lt'' then y < val
          else if endswith key ''__lte'' then y \<le> val
          else if endswith key ''__ne'' then y \<noteq> val
          else y = val)"
| "match ga (AndFilter fs) x = match_and ga fs x True"
| "match ga (OrFilter fs) x = match_or ga fs x False"
| "match_and ga [] x is_match = is_match"
| "match_and ga (f # fs) x is_match = match_and ga fs x (is_match \<and> match ga f x)"
| "match_or ga [] x is_match = is_match"
| "match_or ga (f # fs) x is_match = match_or ga fs x (is_match \<or> match ga f x)"

section \<open>Vertex\<close>

text \<open>
  A \<^verbatim>\<open>Vertex\<close> is a dependency link: its kind, its two end nodes, and the keyword
  attributes that \<^verbatim>\<open>setattr\<close> attached to it, in the order of the keyword dictionary.
\<close>

record ('n, 'a) vertex =
  vertex_type :: string
  from_node :: 'n
  to_node :: 'n
  attributes :: "(string \<times> 'a) list"

text \<open>
  \<^verbatim>\<open>setattr(obj, k, v)\<close> for a name that is stored in the instance dictionary: the
  dictionary of the attributes set on an instance, with the new value under the name.
\<close>

definition setattr :: "string \<Rightarrow> 'b \<Rightarrow> (string \<times> 'b) list \<Rightarrow> (string \<times> 'b) list" where
  "setattr k v d = (if k \<in> fst ` set d then map (\<lambda>(k', v'). if k' = k then (k', v) else (k', v')) d
                    else d @ [(k, v)])"

text \<open>
  The call \<^verbatim>\<open>Vertex(vertex_type, from_node, to_node, **kw)\<close> first binds its arguments.
  The signature is \<^verbatim>\<open>__init__(self, vertex_type, from_node, to_node, **attributes)\<close>: a
  keyword that names one of the four parameters, next to the positional arguments, gets
  "multiple values" and the call raises \<^verbatim>\<open>TypeError\<close> before the body runs; every other
  keyword reaches the dictionary \<^verbatim>\<open>attributes\<close>.
\<close>

definition parameter_names :: "string list" where
  "parameter_names = [''self'', ''vertex_type'', ''from_node'', ''to_node'']"

text \<open>
  The loop \<^verbatim>\<open>for key, value in attributes.items(): setattr(self, key, value)\<close>. Three names
  are not stored in the instance dictionary but handled by descriptors of \<^verbatim>\<open>object\<close>, which
  can refuse the value (\<^verbatim>\<open>__class__ = 1\<close> raises \<^verbatim>\<open>TypeError\<close>). The parameter \<open>sa\<close> is their
  answer: the exception raised for the name and the value, if any. Where a descriptor accepts
  the value, its effect on the instance is not modelled, and the theorems leave these names
  out.
\<close>

definition descriptor_names :: "string list" where
  "descriptor_names = [''__class__'', ''__dict__'', ''__weakref__'']"

fun Vertex_setattrs ::
  "(string \<Rightarrow> 'a \<Rightarrow> error option) \<Rightarrow> (string \<times> 'a) list \<Rightarrow> (string \<times> 'a) list
     \<Rightarrow> error + (string \<times> 'a) list" where
  "Vertex_setattrs sa [] self = Inr self"
| "Vertex_setattrs sa ((key, val) # rest) self =
     (case (if key \<in> set descriptor_names then sa key val else None) of
        Some e \<Rightarrow> Inl e
      | None \<Rightarrow> Vertex_setattrs sa rest (setattr key val self))"

text \<open>
  The body of \<^verbatim>\<open>Vertex.__init__\<close>, for the dictionary \<^verbatim>\<open>attributes\<close> that binding hands to
  it: three assertions, in the order of the source, then the assignments and the loop.
\<close>

definition Vertex_init ::
  "(string \<Rightarrow> 'a \<Rightarrow> error option) \<Rightarrow> string \<Rightarrow> 'n \<Rightarrow> 'n \<Rightarrow> (string \<times> 'a) list
     \<Rightarrow> error + ('n, 'a) vertex" where
  "Vertex_init sa vt f t attrs =
     (if ''from_node'' \<in> fst ` set attrs then Inl AssertionError
      else if ''to_node'' \<in> fst ` set attrs then Inl AssertionError
      else if ''vertex_type'' \<in> fst ` set attrs then Inl AssertionError
      else
        (case Vertex_setattrs sa attrs [] of
           Inl e \<Rightarrow> Inl e
         | Inr self \<Rightarrow>
             Inr \<lparr>vertex_type = vt, from_node = f, to_node = t, attributes = self\<rparr>))"

text \<open>The whole call: binding, then the body.\<close>

definition Vertex_call ::
  "(string \<Rightarrow> 'a \<Rightarrow> error option) \<Rightarrow> string \<Rightarrow> 'n \<Rightarrow> 'n \<Rightarrow> (string \<times> 'a) list
     \<Rightarrow> error + ('n, 'a) vertex" where
  "Vertex_call sa vt f t kw =
     (if \<exists>k \<in> set (map fst kw). k \<in> set parameter_names then Inl TypeError
      else Vertex_init sa vt f t kw)"

text \<open>\<^verbatim>\<open>__eq__\<close> between two vertices, and \<^verbatim>\<open>__hash__\<close>, with the hash of a tuple as the
  parameter \<open>h\<close>.\<close>

definition vertex_eq :: "('n, 'a) vertex \<Rightarrow> ('n, 'a) vertex \<Rightarrow> bool" where
  "vertex_eq self other =
     (vertex_type self = vertex_type other
      \<and> from_node self = from_node other
      \<and> to_node self = to_node other)"

definition Vertex_hash :: "(string \<times> 'n \<times> 'n \<Rightarrow> int) \<Rightarrow> ('n, 'a) vertex \<Rightarrow> int" where
  "Vertex_hash h self = h (vertex_type self, from_node self, to_node self)"

text \<open>\<^verbatim>\<open>__str__\<close>, with \<^verbatim>\<open>str\<close> of a node as the parameter \<open>str_node\<close>.\<close>

definition Vertex_str :: "('n \<Rightarrow> string) \<Rightarrow> ('n, 'a) vertex \<Rightarrow> string" where
  "Vertex_str str_node self =
     ''('' @ str_node (from_node self) @ '') --> ('' @ str_node (to_node self) @ '')''"

subsection \<open>Sets of vertices and of nodes\<close>

text \<open>
  A Python \<^verbatim>\<open>set\<close> is modelled by the list of its elements in insertion order. A set of
  vertices holds no two elements that \<^verbatim>\<open>__eq__\<close> identifies; adding an element that is
  already present keeps the one that is there.
\<close>

definition vmem :: "('n, 'a) vertex \<Rightarrow> ('n, 'a) vertex list \<Rightarrow> bool" where
  "vmem v vs = (\<exists>w \<in> set vs. vertex_eq w v)"

definition vset_add :: "('n, 'a) vertex \<Rightarrow> ('n, 'a) vertex list \<Rightarrow> ('n, 'a) vertex list" where
  "vset_add v vs = (if vmem v vs then vs else vs @ [v])"

definition vset :: "('n, 'a) vertex list \<Rightarrow> ('n, 'a) vertex list" where
  "vset xs = foldl (\<lambda>s v. vset_add v s) [] xs"

definition vset_diff :: "('n, 'a) vertex list \<Rightarrow> ('n, 'a) vertex list \<Rightarrow> ('n, 'a) vertex list" where
  "vset_diff a b = filter (\<lambda>v. \<not> vmem v b) a"

definition nset_add :: "'n \<Rightarrow> 'n list \<Rightarrow> 'n list" where
  "nset_add n ns = (if n \<in> set ns then ns else ns @ [n])"

definition nset :: "'n list \<Rightarrow> 'n list" where
  "nset xs = foldl (\<lambda>s n. nset_add n s) [] xs"

section \<open>Plugins\<close>



text \<open>
  What the graph engine asks of a plugin: \<^verbatim>\<open>can_create_vertex(node)\<close> and the finite
  sequence \<^verbatim>\<open>vertices(node)\<close>.
\<close>

record ('n, 'a) plugin =
  can_create_vertex :: "'n \<Rightarrow> bool"
  plugin_vertices :: "'n \<Rightarrow> ('n, 'a) vertex list"

text \<open>
  \<^verbatim>\<open>Plugin.can_create_vertex\<close>: the class attribute \<^verbatim>\<open>file_extensions\<close> is \<^verbatim>\<open>"*"\<close>, one
  suffix, or a collection of suffixes; \<open>name_of\<close> reads \<^verbatim>\<open>node.name\<close>.
\<close>

datatype file_extensions = Ext string | Exts "string list"

fun ends_with_any :: "string \<Rightarrow> string list \<Rightarrow> bool \<Rightarrow> bool" where
  "ends_with_any name [] ends_with = ends_with"
| "ends_with_any name (file_ext # rest) ends_with =
     ends_with_any name rest (ends_with \<or> endswith name file_ext)"

fun Plugin_can_create_vertex :: "('n \<Rightarrow> string) \<Rightarrow> file_extensions \<Rightarrow> 'n \<Rightarrow> bool" where
  "Plugin_can_create_vertex name_of (Ext e) node =
     (if e = ''*'' then True else endswith (name_of node) e)"
| "Plugin_can_create_vertex name_of (Exts es) node = ends_with_any (name_of node) es False"

text \<open>
  \<^verbatim>\<open>StaticDependencies\<close>: a table of rows \<^verbatim>\<open>(node, sub_nodes)\<close>. It keeps the class
  attribute \<^verbatim>\<open>file_extensions = "*"\<close>, so \<^verbatim>\<open>can_create_vertex\<close> answers \<^verbatim>\<open>True\<close> in its
  first branch, and its vertices carry no attribute.
\<close>

definition Vertex_static :: "'n \<Rightarrow> 'n \<Rightarrow> ('n, 'a) vertex" where
  "Vertex_static node sub_node =
     \<lparr>vertex_type = ''static'', from_node = node, to_node = sub_node, attributes = []\<rparr>"

definition StaticDependencies_vertices :: "('n \<times> 'n list) list \<Rightarrow> 'n \<Rightarrow> ('n, 'a) vertex list" where
  "StaticDependencies_vertices deps node =
     concat (map (\<lambda>d. if fst d = node then map (Vertex_static node) (snd d) else []) deps)"

definition StaticDependencies :: "('n \<times> 'n list) list \<Rightarrow> ('n, 'a) plugin" where
  "StaticDependencies deps =
     \<lparr>can_create_vertex = (\<lambda>node. True),
      plugin_vertices = StaticDependencies_vertices deps\<rparr>"

section \<open>DependencyGraph\<close>

text \<open>
  \<^verbatim>\<open>self.nodes\<close> and \<^verbatim>\<open>self.vertices\<close> are sets. The lists of the model hold their
  elements in the order of insertion, which is the order the model iterates in; Python
  leaves the iteration order of a set open.
\<close>

record ('n, 'a) graph =
  nodes :: "'n list"
  plugins :: "('n, 'a) plugin list"
  vertices :: "('n, 'a) vertex list"

subsection \<open>Discovery\<close>

text \<open>
  \<^verbatim>\<open>build_vertices(node)\<close> is a recursive generator: for every vertex of every applicable
  plugin, a target that is not yet in \<^verbatim>\<open>self.nodes\<close> is added to it and expanded by a
  nested call, whose vertices are yielded before the vertex itself. The model returns the
  vertices in the order they are yielded, with the updated \<^verbatim>\<open>self.nodes\<close>.

  The first argument is the call depth that is left: the number of nested calls of
  \<^verbatim>\<open>build_vertices\<close> that the interpreter still allows below the running one. A nested
  call with none left raises \<^verbatim>\<open>RecursionError\<close>.
\<close>

fun build_vertices ::
    "nat \<Rightarrow> ('n, 'a) plugin list \<Rightarrow> 'n \<Rightarrow> 'n list \<Rightarrow> error + (('n, 'a) vertex list \<times> 'n list)"
  and build_loop ::
    "nat \<Rightarrow> ('n, 'a) plugin list \<Rightarrow> ('n, 'a) vertex list \<Rightarrow> 'n list
       \<Rightarrow> error + (('n, 'a) vertex list \<times> 'n list)"
where
  "build_vertices depth ps node ns =
     build_loop depth ps
       (concat (map (\<lambda>p. plugin_vertices p node) (filter (\<lambda>p. can_create_vertex p node) ps))) ns"
| "build_loop depth ps [] ns = Inr ([], ns)"
| "build_loop depth ps (v # vs) ns =
     (if to_node v \<notin> set ns then
        (case depth of
           0 \<Rightarrow> Inl RecursionError
         | Suc depth' \<Rightarrow>
             (case build_vertices depth' ps (to_node v) (ns @ [to_node v]) of
                Inl e \<Rightarrow> Inl e
              | Inr (sub, ns1) \<Rightarrow>
                  (case build_loop depth ps vs ns1 of
                     Inl e \<Rightarrow> Inl e
                   | Inr (rest, ns2) \<Rightarrow> Inr (sub @ v # rest, ns2))))
      else
        (case build_loop depth ps vs ns of
           Inl e \<Rightarrow> Inl e
         | Inr (rest, ns2) \<Rightarrow> Inr (v # rest, ns2)))"

text \<open>
  \<^verbatim>\<open>generate_vertices\<close>: the seeds are popped from the end of \<^verbatim>\<open>list(self.nodes)\<close>; the
  first list argument is that list in the order of popping.
\<close>

fun generate_vertices ::
  "nat \<Rightarrow> ('n, 'a) plugin list \<Rightarrow> 'n list \<Rightarrow> 'n list \<Rightarrow> error + (('n, 'a) vertex list \<times> 'n list)"
where
  "generate_vertices depth ps [] ns = Inr ([], ns)"
| "generate_vertices depth ps (node # todo) ns =
     (case build_vertices depth ps node ns of
        Inl e \<Rightarrow> Inl e
      | Inr (out, ns1) \<Rightarrow>
          (case generate_vertices depth ps todo ns1 of
             Inl e \<Rightarrow> Inl e
           | Inr (rest, ns2) \<Rightarrow> Inr (out @ rest, ns2)))"

subsection \<open>Cycle check\<close>

text \<open>
  The two indexes of \<^verbatim>\<open>is_acyclic\<close> are dictionaries from a node to a set of vertices,
  created with every node of \<^verbatim>\<open>self.nodes\<close> as a key. Indexing with a key that is not
  there raises \<^verbatim>\<open>KeyError\<close>.
\<close>

type_synonym ('n, 'a) index = "('n \<times> ('n, 'a) vertex list) list"

definition index_init :: "'n list \<Rightarrow> ('n, 'a) index" where
  "index_init ns = map (\<lambda>node. (node, [])) ns"

definition index_get :: "('n, 'a) index \<Rightarrow> 'n \<Rightarrow> error + ('n, 'a) vertex list" where
  "index_get d k = (case map_of d k of None \<Rightarrow> Inl KeyError | Some s \<Rightarrow> Inr s)"

definition index_add :: "'n \<Rightarrow> ('n, 'a) vertex \<Rightarrow> ('n, 'a) index \<Rightarrow> error + ('n, 'a) index" where
  "index_add k v d =
     (case map_of d k of
        None \<Rightarrow> Inl KeyError
      | Some _ \<Rightarrow> Inr (map (\<lambda>(k', s). if k' = k then (k', vset_add v s) else (k', s)) d))"

fun build_index ::
  "('n, 'a) vertex list \<Rightarrow> ('n, 'a) index \<Rightarrow> ('n, 'a) index
     \<Rightarrow> error + (('n, 'a) index \<times> ('n, 'a) index)" where
  "build_index [] connected_to from_nodes = Inr (connected_to, from_nodes)"
| "build_index (vertice # vs) connected_to from_nodes =
     (case index_add (to_node vertice) vertice connected_to of
        Inl e \<Rightarrow> Inl e
      | Inr connected_to' \<Rightarrow>
          (case index_add (from_node vertice) vertice from_nodes of
             Inl e \<Rightarrow> Inl e
           | Inr from_nodes' \<Rightarrow> build_index vs connected_to' from_nodes'))"

text \<open>The nodes that no vertex points to, in the order of \<^verbatim>\<open>self.nodes\<close>.\<close>

fun free_nodes :: "('n, 'a) index \<Rightarrow> 'n list \<Rightarrow> error + 'n list" where
  "free_nodes connected_to [] = Inr []"
| "free_nodes connected_to (node # ns) =
     (case index_get connected_to node of
        Inl e \<Rightarrow> Inl e
      | Inr s \<Rightarrow>
          (case free_nodes connected_to ns of
             Inl e \<Rightarrow> Inl e
           | Inr rest \<Rightarrow> Inr (if length s = 0 then node # rest else rest)))"

text \<open>
  The inner loop over \<^verbatim>\<open>connected\<close>: the vertex is marked deleted, and its target is
  pushed when every vertex into the popped \<^verbatim>\<open>node\<close> is deleted.
\<close>

fun delete_loop ::
  "('n, 'a) index \<Rightarrow> 'n \<Rightarrow> ('n, 'a) vertex list \<Rightarrow> ('n, 'a) vertex list \<Rightarrow> 'n list
     \<Rightarrow> error + (('n, 'a) vertex list \<times> 'n list)" where
  "delete_loop connected_to node [] deleted stack = Inr (deleted, stack)"
| "delete_loop connected_to node (vertice # connected) deleted stack =
     (case index_get connected_to node of
        Inl e \<Rightarrow> Inl e
      | Inr incoming \<Rightarrow>
          delete_loop connected_to node connected (vset_add vertice deleted)
            (if vset_diff incoming (vset_add vertice deleted) = []
             then stack @ [to_node vertice] else stack))"

text \<open>
  The \<^verbatim>\<open>while nodes\<close> loop pops the last node of the stack. It ends because every round
  either deletes vertices of the index that were not deleted before, and pushes at most
  one node for each of them, or only shortens the stack.
\<close>

definition undeleted :: "('n, 'a) index \<Rightarrow> ('n, 'a) vertex list \<Rightarrow> nat" where
  "undeleted d deleted = length (vset_diff (concat (map snd d)) deleted)"

lemma vertex_eq_refl [simp]: "vertex_eq v v"
  by (simp add: vertex_eq_def)

lemma vertex_eq_sym: "vertex_eq v w \<Longrightarrow> vertex_eq w v"
  by (simp add: vertex_eq_def)

lemma vertex_eq_trans: "vertex_eq u v \<Longrightarrow> vertex_eq v w \<Longrightarrow> vertex_eq u w"
  by (simp add: vertex_eq_def)

lemma vmem_vset_add: "vmem w (vset_add v vs) \<longleftrightarrow> vertex_eq v w \<or> vmem w vs"
  by (auto simp: vset_add_def vmem_def intro: vertex_eq_trans)

lemma delete_loop_result:
  "delete_loop ct node cs del st = Inr (del', st') \<Longrightarrow>
     (\<forall>w. vmem w del' \<longleftrightarrow> vmem w del \<or> (\<exists>c \<in> set cs. vertex_eq c w))
     \<and> length st' \<le> length st + length cs"
proof (induction cs arbitrary: del st)
  case Nil
  then show ?case by simp
next
  case (Cons c cs)
  from Cons.prems obtain incoming where
    run: "delete_loop ct node cs (vset_add c del)
            (if vset_diff incoming (vset_add c del) = [] then st @ [to_node c] else st)
          = Inr (del', st')"
    by (auto split: sum.splits)
  from Cons.IH [OF run] show ?case
    by (auto simp: vmem_vset_add split: if_splits)
qed

lemma length_filter_mono:
  "(\<And>x. x \<in> set xs \<Longrightarrow> P x \<Longrightarrow> Q x) \<Longrightarrow> length (filter P xs) \<le> length (filter Q xs)"
  by (induction xs) auto

lemma undeleted_decreases:
  assumes look: "map_of d node = Some out"
    and grow: "\<forall>w. vmem w del' \<longleftrightarrow> vmem w del \<or> (\<exists>c \<in> set (vset_diff out del). vertex_eq c w)"
  shows "undeleted d del' + length (vset_diff out del) \<le> undeleted d del"
proof -
  from look have "(node, out) \<in> set d" by (rule map_of_SomeD)
  then obtain xs ys where d: "d = xs @ (node, out) # ys"
    by (auto dest: split_list)
  have mono: "length (vset_diff l del') \<le> length (vset_diff l del)" for l
    unfolding vset_diff_def using grow by (intro length_filter_mono) auto
  have gone: "vset_diff out del' = []"
    unfolding vset_diff_def using grow
    by (auto simp: filter_empty_conv vset_diff_def)
  have "undeleted d del' =
      length (vset_diff (concat (map snd xs)) del') + length (vset_diff (concat (map snd ys)) del')"
    using gone by (simp add: undeleted_def d vset_diff_def)
  also have "\<dots> \<le> length (vset_diff (concat (map snd xs)) del)
      + length (vset_diff (concat (map snd ys)) del)"
    using mono add_mono by blast
  finally show ?thesis
    by (simp add: undeleted_def d vset_diff_def)
qed

function elim ::
  "('n, 'a) index \<Rightarrow> ('n, 'a) index \<Rightarrow> 'n list \<Rightarrow> ('n, 'a) vertex list
     \<Rightarrow> error + ('n, 'a) vertex list" where
  "elim connected_to from_nodes stack deleted =
     (if stack = [] then Inr deleted
      else
        (case index_get from_nodes (last stack) of
           Inl e \<Rightarrow> Inl e
         | Inr out \<Rightarrow>
             (case delete_loop connected_to (last stack) (vset_diff out deleted) deleted
                     (butlast stack) of
                Inl e \<Rightarrow> Inl e
              | Inr (deleted', stack') \<Rightarrow> elim connected_to from_nodes stack' deleted')))"
  by pat_completeness auto
termination
proof (relation "measure (\<lambda>(ct, fn, st, del). 2 * undeleted fn del + length st)", goal_cases)
  case 1
  show ?case by simp
next
  case (2 ct fn st del out res del' st')
  from 2(2) have look: "map_of fn (last st) = Some out"
    by (auto simp: index_get_def split: option.splits)
  from 2(3,4) have run:
    "delete_loop ct (last st) (vset_diff out del) del (butlast st) = Inr (del', st')"
    by simp
  note r = delete_loop_result [OF run]
  from r have len: "length st' \<le> length (butlast st) + length (vset_diff out del)" by simp
  from r have "undeleted fn del' + length (vset_diff out del) \<le> undeleted fn del"
    by (intro undeleted_decreases [OF look]) simp
  with len 2(1) show ?case
    by (cases st rule: rev_cases) auto
qed

declare elim.simps [simp del]

text \<open>
  \<^verbatim>\<open>is_acyclic\<close>, for \<^verbatim>\<open>self.nodes\<close> and \<^verbatim>\<open>self.vertices\<close>: both indexes are built, the
  nodes without an incoming vertex start the stack, and the answer compares the number of
  vertices with the number of deleted ones.
\<close>

definition is_acyclic :: "'n list \<Rightarrow> ('n, 'a) vertex list \<Rightarrow> error + bool" where
  "is_acyclic ns vs =
     (case build_index vs (index_init ns) (index_init ns) of
        Inl e \<Rightarrow> Inl e
      | Inr (connected_to, from_nodes) \<Rightarrow>
          (case free_nodes connected_to ns of
             Inl e \<Rightarrow> Inl e
           | Inr stack \<Rightarrow>
               (case elim connected_to from_nodes stack [] of
                  Inl e \<Rightarrow> Inl e
                | Inr deleted_vertices \<Rightarrow> Inr (length vs = length deleted_vertices))))"

subsection \<open>Construction\<close>

text \<open>
  \<^verbatim>\<open>DependencyGraph.__init__(nodes, plugins)\<close>, with the call depth left for the nested
  calls of discovery. The caller gets a graph only when no exception is raised.
\<close>

definition DependencyGraph_init ::
  "nat \<Rightarrow> 'n list \<Rightarrow> ('n, 'a) plugin list \<Rightarrow> error + ('n, 'a) graph" where
  "DependencyGraph_init depth seeds ps =
     (case generate_vertices depth ps (rev (nset seeds)) (nset seeds) of
        Inl e \<Rightarrow> Inl e
      | Inr (out, ns) \<Rightarrow>
          (case is_acyclic ns (vset out) of
             Inl e \<Rightarrow> Inl e
           | Inr ok \<Rightarrow>
               if \<not> ok then Inl CircularDependencyError
               else Inr \<lparr>nodes = ns, plugins = ps, vertices = vset out\<rparr>))"

subsection \<open>Queries\<close>

text \<open>
  \<^verbatim>\<open>dependencies(node, follow)\<close> is a recursive generator as well; the model returns the
  whole sequence it yields. With \<^verbatim>\<open>follow\<close>, every vertex out of the node costs a nested
  call, and the first argument is again the call depth that is left.
\<close>

fun dependencies ::
    "nat \<Rightarrow> ('n, 'a) graph \<Rightarrow> 'n \<Rightarrow> bool \<Rightarrow> error + 'n list"
  and dependencies_loop ::
    "nat \<Rightarrow> ('n, 'a) graph \<Rightarrow> ('n, 'a) vertex list \<Rightarrow> bool \<Rightarrow> error + 'n list"
where
  "dependencies depth g node follow =
     dependencies_loop depth g (filter (\<lambda>v. from_node v = node) (vertices g)) follow"
| "dependencies_loop depth g [] follow = Inr []"
| "dependencies_loop depth g (vertex # vs) follow =
     (if follow then
        (case depth of
           0 \<Rightarrow> Inl RecursionError
         | Suc depth' \<Rightarrow>
             (case dependencies depth' g (to_node vertex) follow of
                Inl e \<Rightarrow> Inl e
              | Inr sub \<Rightarrow>
                  (case dependencies_loop depth g vs follow of
                     Inl e \<Rightarrow> Inl e
                   | Inr rest \<Rightarrow> Inr (to_node vertex # sub @ rest))))
      else
        (case dependencies_loop depth g vs follow of
           Inl e \<Rightarrow> Inl e
         | Inr rest \<Rightarrow> Inr (to_node vertex # rest)))"

section \<open>Example inputs and the notion of a cycle\<close>

text \<open>
  The table of \<^verbatim>\<open>test_single_node\<close>, and the graph that construction yields for the seed
  \<^verbatim>\<open>A\<close>, with the vertices in the order discovery yields them.
\<close>

definition single_node_table :: "(string \<times> string list) list" where
  "single_node_table =
     [(''A'', [''B'', ''C'', ''D'']), (''B'', [''C'', ''D'']), (''D'', [''E''])]"

definition single_node_graph :: "(string, unit) graph" where
  "single_node_graph =
     \<lparr>nodes = [''A'', ''B'', ''C'', ''D'', ''E''],
      plugins = [StaticDependencies single_node_table],
      vertices =
        [Vertex_static ''B'' ''C'', Vertex_static ''D'' ''E'', Vertex_static ''B'' ''D'',
         Vertex_static ''A'' ''B'', Vertex_static ''A'' ''C'', Vertex_static ''A'' ''D'']\<rparr>"

text \<open>
  The directed graph of a set of vertices, and what it means for it to hold a directed
  cycle: some node reaches itself along one or more vertices.
\<close>

definition edge_rel :: "('n, 'a) vertex list \<Rightarrow> ('n \<times> 'n) set" where
  "edge_rel vs = (\<lambda>v. (from_node v, to_node v)) ` set vs"

definition has_cycle :: "('n, 'a) vertex list \<Rightarrow> bool" where
  "has_cycle vs = (\<exists>n. (n, n) \<in> (edge_rel vs)\<^sup>+)"

text \<open>
  Two tables for \<^verbatim>\<open>StaticDependencies\<close>. The first has the cycle B, C, B below the seed
  \<^verbatim>\<open>A\<close>; the second, for the seeds \<^verbatim>\<open>A\<close> and \<^verbatim>\<open>C\<close>, has no cycle.
\<close>

definition cyclic_table :: "(string \<times> string list) list" where
  "cyclic_table = [(''A'', [''B'', ''C'']), (''B'', [''C'']), (''C'', [''B''])]"

definition cyclic_graph :: "(string, unit) graph" where
  "cyclic_graph =
     \<lparr>nodes = [''A'', ''B'', ''C''],
      plugins = [StaticDependencies cyclic_table],
      vertices =
        [Vertex_static ''C'' ''B'', Vertex_static ''B'' ''C'', Vertex_static ''A'' ''B'',
         Vertex_static ''A'' ''C'']\<rparr>"

definition diamond_table :: "(string \<times> string list) list" where
  "diamond_table = [(''A'', [''B'']), (''C'', [''B'']), (''B'', [''D'']), (''D'', [''E''])]"

definition diamond_vertices :: "(string, unit) vertex list" where
  "diamond_vertices =
     [Vertex_static ''D'' ''E'', Vertex_static ''B'' ''D'', Vertex_static ''C'' ''B'',
      Vertex_static ''A'' ''B'']"

text \<open>
  All the orders of a list: every place of the head in every order of the tail. They stand
  for the iteration orders that a set with these elements can have.
\<close>

fun orders :: "'a list \<Rightarrow> 'a list list" where
  "orders [] = [[]]"
| "orders (x # xs) =
     concat (map (\<lambda>ys. map (\<lambda>i. take i ys @ x # drop i ys) [0..<Suc (length ys)]) (orders xs))"

text \<open>
  A chain of \<open>N\<close> sequentially dependent nodes \<open>0, ..., N - 1\<close> as a table for
  \<^verbatim>\<open>StaticDependencies\<close>: node \<open>i\<close> depends on node \<open>i + 1\<close>.
\<close>

definition chain_table :: "nat \<Rightarrow> (nat \<times> nat list) list" where
  "chain_table N = map (\<lambda>i. (i, [Suc i])) [0..<N - 1]"

definition chain_plugins :: "nat \<Rightarrow> (nat, unit) plugin list" where
  "chain_plugins N = [StaticDependencies (chain_table N)]"

definition chain_edge :: "nat \<Rightarrow> (nat, unit) vertex" where
  "chain_edge i = Vertex_static i (Suc i)"

text \<open>The graph that construction yields for the seed \<open>0\<close> of a chain.\<close>

definition chain_graph :: "nat \<Rightarrow> (nat, unit) graph" where
  "chain_graph N =
     \<lparr>nodes = [0..<N], plugins = chain_plugins N,
      vertices = map chain_edge (rev [0..<N - 1])\<rparr>"

section \<open>Properties of vertices\<close>

text \<open>
  Claim C4. Two vertices are equal exactly when their triples of kind, source and target
  are equal; the attributes play no part. Equal vertices have the same hash, and a set
  built from two equal vertices holds one element (the first one inserted).
\<close>

theorem Vertex_identity_is_triple:
  "vertex_eq e1 e2 =
     ((vertex_type e1, from_node e1, to_node e1) = (vertex_type e2, from_node e2, to_node e2))
   \<and> vertex_eq (e1\<lparr>attributes := a1\<rparr>) (e2\<lparr>attributes := a2\<rparr>) = vertex_eq e1 e2
   \<and> (vertex_eq e1 e2 \<longrightarrow> Vertex_hash h e1 = Vertex_hash h e2)
   \<and> (vertex_eq e1 e2 \<longrightarrow> vset [e1, e2] = [e1])"
  by (auto simp: vertex_eq_def Vertex_hash_def vset_def vset_add_def vmem_def)

theorem Vertex_identity_is_triple_witness:
  "vertex_eq \<lparr>vertex_type = ''static'', from_node = ''A'', to_node = ''B'', attributes = [(''weight'', 1::int)]\<rparr>
             \<lparr>vertex_type = ''static'', from_node = ''A'', to_node = ''B'', attributes = [(''weight'', 2::int)]\<rparr>
   \<and> Vertex_hash (\<lambda>(k, f, t). int (length k + length f + length t))
         \<lparr>vertex_type = ''static'', from_node = ''A'', to_node = ''B'', attributes = [(''weight'', 1::int)]\<rparr>
     = Vertex_hash (\<lambda>(k, f, t). int (length k + length f + length t))
         \<lparr>vertex_type = ''static'', from_node = ''A'', to_node = ''B'', attributes = [(''weight'', 2::int)]\<rparr>
   \<and> vset [\<lparr>vertex_type = ''static'', from_node = ''A'', to_node = ''B'', attributes = [(''weight'', 1::int)]\<rparr>,
            \<lparr>vertex_type = ''static'', from_node = ''A'', to_node = ''B'', attributes = [(''weight'', 2::int)]\<rparr>]
     = [\<lparr>vertex_type = ''static'', from_node = ''A'', to_node = ''B'', attributes = [(''weight'', 1::int)]\<rparr>]"
  using Vertex_identity_is_triple
    [of "\<lparr>vertex_type = ''static'', from_node = ''A'', to_node = ''B'', attributes = [(''weight'', 1::int)]\<rparr>"
        "\<lparr>vertex_type = ''static'', from_node = ''A'', to_node = ''B'', attributes = [(''weight'', 2::int)]\<rparr>"
        "[]" "[]" "\<lambda>(k, f, t). int (length k + length f + length t)"]
  by (simp add: vertex_eq_def)

lemma Vertex_setattrs_plain:
  "\<forall>k \<in> fst ` set attrs. k \<notin> set descriptor_names \<Longrightarrow>
     distinct (map fst self @ map fst attrs) \<Longrightarrow>
     Vertex_setattrs sa attrs self = Inr (self @ attrs)"
proof (induction attrs arbitrary: self)
  case Nil
  then show ?case by simp
next
  case (Cons kv attrs)
  obtain k v where kv: "kv = (k, v)" by (cases kv)
  from Cons.prems(2) kv have new: "k \<notin> fst ` set self" by auto
  then have store: "setattr k v self = self @ [(k, v)]" by (simp add: setattr_def)
  have "Vertex_setattrs sa attrs (self @ [(k, v)]) = Inr ((self @ [(k, v)]) @ attrs)"
    by (rule Cons.IH) (use Cons.prems kv in auto)
  with Cons.prems(1) kv store show ?case by simp
qed

lemma Vertex_setattrs_error:
  "Vertex_setattrs sa attrs self = Inl e \<Longrightarrow>
     \<exists>(k, v) \<in> set attrs. k \<in> set descriptor_names \<and> sa k v = Some e"
proof (induction attrs arbitrary: self)
  case Nil
  then show ?case by simp
next
  case (Cons kv attrs)
  obtain k v where kv: "kv = (k, v)" by (cases kv)
  show ?case
  proof (cases "k \<in> set descriptor_names \<and> sa k v \<noteq> None")
    case True
    with Cons.prems kv show ?thesis by auto
  next
    case False
    with Cons.prems kv have "Vertex_setattrs sa attrs (setattr k v self) = Inl e"
      by (auto split: if_splits)
    from Cons.IH [OF this] show ?thesis by auto
  qed
qed

lemma Vertex_setattrs_refused:
  "\<exists>(k, v) \<in> set attrs. k \<in> set descriptor_names \<and> sa k v \<noteq> None \<Longrightarrow>
     \<exists>e. Vertex_setattrs sa attrs self = Inl e"
proof (induction attrs arbitrary: self)
  case Nil
  then show ?case by simp
next
  case (Cons kv attrs)
  obtain k v where kv: "kv = (k, v)" by (cases kv)
  show ?case
  proof (cases "k \<in> set descriptor_names \<and> sa k v \<noteq> None")
    case True
    with kv show ?thesis by auto
  next
    case False
    with Cons.prems kv
    have "\<exists>(k, v) \<in> set attrs. k \<in> set descriptor_names \<and> sa k v \<noteq> None" by auto
    from Cons.IH [OF this, of "setattr k v self"] False kv show ?thesis by auto
  qed
qed

lemma Vertex_call_static: "Vertex_call sa ''static'' node sub_node [] = Inr (Vertex_static node sub_node)"
  by (simp add: Vertex_call_def Vertex_init_def Vertex_static_def)

text \<open>
  Claim C6, as stated (every bag without one of the three reserved names gives a vertex),
  fails for the bag that holds the name \<^verbatim>\<open>self\<close>, which is the fourth parameter of
  \<^verbatim>\<open>__init__\<close>, and for the bag that holds \<^verbatim>\<open>__class__\<close> with a value that is no class, which
  \<^verbatim>\<open>setattr\<close> refuses: neither name is reserved, and the call raises \<^verbatim>\<open>TypeError\<close>.
\<close>

theorem Vertex_call_unreserved_counterexample:
  "''self'' \<notin> {''vertex_type'', ''from_node'', ''to_node''}
   \<and> Vertex_call (\<lambda>k v. None) ''static'' ''A'' ''B'' [(''self'', 1::int)] = Inl TypeError
   \<and> ''__class__'' \<notin> {''vertex_type'', ''from_node'', ''to_node''}
   \<and> Vertex_call (\<lambda>k v. Some TypeError) ''static'' ''A'' ''B'' [(''__class__'', 1::int)]
       = Inl TypeError"
  by (simp add: Vertex_call_def Vertex_init_def parameter_names_def descriptor_names_def)

text \<open>
  Claim C6, amended. A bag that holds one of the three reserved names, or the name
  \<^verbatim>\<open>self\<close>, makes the call fail with \<^verbatim>\<open>TypeError\<close> when the arguments are bound; the
  assertions of the body never fail. A bag with none of these four names and none of the
  three names that descriptors of \<^verbatim>\<open>object\<close> handle gives the vertex with the attributes
  attached. A bag with none of the four names in which a descriptor refuses a value makes
  the call fail with the descriptor's exception.
\<close>

theorem Vertex_call_attribute_names:
  "((\<exists>k \<in> fst ` set attrs. k \<in> {''self'', ''vertex_type'', ''from_node'', ''to_node''})
      \<longrightarrow> Vertex_call sa vt f t attrs = Inl TypeError)
   \<and> ((\<forall>k v. sa k v \<noteq> Some AssertionError)
      \<longrightarrow> Vertex_call sa vt f t attrs \<noteq> Inl AssertionError)
   \<and> ((\<forall>k \<in> fst ` set attrs. k \<notin> {''self'', ''vertex_type'', ''from_node'', ''to_node''}
           \<and> k \<notin> set descriptor_names)
        \<and> distinct (map fst attrs)
      \<longrightarrow> Vertex_call sa vt f t attrs
            = Inr \<lparr>vertex_type = vt, from_node = f, to_node = t, attributes = attrs\<rparr>)
   \<and> ((\<forall>k \<in> fst ` set attrs. k \<notin> {''self'', ''vertex_type'', ''from_node'', ''to_node''})
        \<and> (\<exists>(k, v) \<in> set attrs. k \<in> set descriptor_names \<and> sa k v \<noteq> None)
      \<longrightarrow> (\<exists>e k v. (k, v) \<in> set attrs \<and> sa k v = Some e
             \<and> Vertex_call sa vt f t attrs = Inl e))"
proof (intro conjI impI)
  assume "\<exists>k \<in> fst ` set attrs. k \<in> {''self'', ''vertex_type'', ''from_node'', ''to_node''}"
  then show "Vertex_call sa vt f t attrs = Inl TypeError"
    by (auto simp: Vertex_call_def parameter_names_def)
next
  assume sa: "\<forall>k v. sa k v \<noteq> Some AssertionError"
  show "Vertex_call sa vt f t attrs \<noteq> Inl AssertionError"
  proof
    assume raised: "Vertex_call sa vt f t attrs = Inl AssertionError"
    then have none: "\<forall>k \<in> fst ` set attrs. k \<notin> set parameter_names"
      and body: "Vertex_init sa vt f t attrs = Inl AssertionError"
      by (auto simp: Vertex_call_def split: if_splits)
    from none have "''from_node'' \<notin> fst ` set attrs" "''to_node'' \<notin> fst ` set attrs"
      "''vertex_type'' \<notin> fst ` set attrs"
      by (auto simp: parameter_names_def)
    with body have "Vertex_setattrs sa attrs [] = Inl AssertionError"
      by (simp add: Vertex_init_def split: sum.splits)
    from Vertex_setattrs_error [OF this] sa show False by auto
  qed
next
  assume a: "(\<forall>k \<in> fst ` set attrs. k \<notin> {''self'', ''vertex_type'', ''from_node'', ''to_node''}
           \<and> k \<notin> set descriptor_names) \<and> distinct (map fst attrs)"
  then have "Vertex_setattrs sa attrs [] = Inr ([] @ attrs)"
    by (intro Vertex_setattrs_plain) auto
  with a show "Vertex_call sa vt f t attrs
      = Inr \<lparr>vertex_type = vt, from_node = f, to_node = t, attributes = attrs\<rparr>"
    by (auto simp: Vertex_call_def Vertex_init_def parameter_names_def)
next
  assume a: "(\<forall>k \<in> fst ` set attrs. k \<notin> {''self'', ''vertex_type'', ''from_node'', ''to_node''})
        \<and> (\<exists>(k, v) \<in> set attrs. k \<in> set descriptor_names \<and> sa k v \<noteq> None)"
  then obtain e where e: "Vertex_setattrs sa attrs [] = Inl e"
    using Vertex_setattrs_refused [of attrs sa "[]"] by blast
  from Vertex_setattrs_error [OF e] obtain k v where
    kv: "(k, v) \<in> set attrs" "sa k v = Some e" by auto
  from a e have "Vertex_call sa vt f t attrs = Inl e"
    by (auto simp: Vertex_call_def Vertex_init_def parameter_names_def)
  with kv show "\<exists>e k v. (k, v) \<in> set attrs \<and> sa k v = Some e
             \<and> Vertex_call sa vt f t attrs = Inl e"
    by blast
qed

theorem Vertex_call_attribute_names_witness:
  "Vertex_call (\<lambda>k v. Some TypeError) ''static'' ''A'' ''B'' [(''weight'', 1::int), (''to_node'', 2)]
     = Inl TypeError
   \<and> Vertex_call (\<lambda>k v. Some TypeError) ''static'' ''A'' ''B'' [(''weight'', 1::int)]
       = Inr \<lparr>vertex_type = ''static'', from_node = ''A'', to_node = ''B'',
              attributes = [(''weight'', 1)]\<rparr>
   \<and> Vertex_call (\<lambda>k v. Some TypeError) ''static'' ''A'' ''B''
         [(''weight'', 1::int), (''__class__'', 2)] = Inl TypeError
   \<and> Vertex_call (\<lambda>k v. Some TypeError) ''static'' ''A'' ''B''
         [(''weight'', 1::int), (''__class__'', 2)] \<noteq> Inl AssertionError"
  using Vertex_call_attribute_names
      [of "[(''weight'', 1::int), (''to_node'', 2)]" "\<lambda>k v. Some TypeError" "''static''" "''A''" "''B''"]
    Vertex_call_attribute_names
      [of "[(''weight'', 1::int)]" "\<lambda>k v. Some TypeError" "''static''" "''A''" "''B''"]
    Vertex_call_attribute_names
      [of "[(''weight'', 1::int), (''__class__'', 2)]" "\<lambda>k v. Some TypeError" "''static''" "''A''" "''B''"]
  by (simp add: descriptor_names_def)

text \<open>
  Claim C8, as stated (the rendering is the source name, \<^verbatim>\<open> --> \<close> and the target name),
  fails for the vertex from \<^verbatim>\<open>A\<close> to \<^verbatim>\<open>B\<close>: the format string of \<^verbatim>\<open>__str__\<close> puts each
  name in parentheses.
\<close>

theorem Vertex_str_plain_counterexample:
  "Vertex_str (\<lambda>s. s) (Vertex_static ''A'' ''B'' :: (string, unit) vertex)
     \<noteq> ''A'' @ '' --> '' @ ''B''"
  by (simp add: Vertex_str_def Vertex_static_def)

text \<open>
  Claim C8, amended. The rendering of a vertex is the source name in parentheses, the
  literal \<^verbatim>\<open> --> \<close>, and the target name in parentheses.
\<close>

theorem Vertex_str_parenthesised:
  "Vertex_str str_node e
     = ''('' @ str_node (from_node e) @ '')'' @ '' --> '' @ ''('' @ str_node (to_node e) @ '')''"
  by (simp add: Vertex_str_def)

section \<open>Properties of filters and plugins\<close>

text \<open>
  Claim C9. An \<^verbatim>\<open>AndFilter\<close> built from an empty list and no keyword criterion matches
  every value, and an \<^verbatim>\<open>OrFilter\<close> built from an empty list matches none.
\<close>

theorem composite_filter_empty:
  "AndFilter_init [] [] = Inr (AndFilter [])
   \<and> match ga (AndFilter []) x = True
   \<and> OrFilter_init [] [] = Inr (OrFilter [])
   \<and> match ga (OrFilter []) x = False"
  by (simp add: AndFilter_init_def OrFilter_init_def)






section \<open>Properties of the graph engine\<close>

subsection \<open>Indexing fails on a node that is not a key\<close>

lemma index_add_keys:
  "index_add k v d = Inr d' \<Longrightarrow> k \<in> fst ` set d \<and> map fst d' = map fst d"
  by (auto simp: index_add_def split: option.splits dest!: map_of_SomeD intro: rev_image_eqI)

lemma build_index_keys:
  "build_index vs ct fn = Inr (ct', fn') \<Longrightarrow>
     map fst ct' = map fst ct \<and> map fst fn' = map fst fn
     \<and> (\<forall>v \<in> set vs. to_node v \<in> fst ` set ct \<and> from_node v \<in> fst ` set fn)"
proof (induction vs arbitrary: ct fn)
  case Nil
  then show ?case by simp
next
  case (Cons v vs)
  from Cons.prems obtain ct1 fn1 where
    a: "index_add (to_node v) v ct = Inr ct1" and
    b: "index_add (from_node v) v fn = Inr fn1" and
    run: "build_index vs ct1 fn1 = Inr (ct', fn')"
    by (auto split: sum.splits)
  from index_add_keys [OF a] index_add_keys [OF b] Cons.IH [OF run]
  show ?case by (metis list.set_map set_ConsD)
qed

lemma is_acyclic_endpoints:
  assumes "is_acyclic ns vs = Inr ok" and "v \<in> set vs"
  shows "from_node v \<in> set ns \<and> to_node v \<in> set ns"
proof -
  from assms(1) obtain ct fn where
    "build_index vs (index_init ns) (index_init ns) = Inr (ct, fn)"
    by (auto simp: is_acyclic_def split: sum.splits)
  from build_index_keys [OF this] assms(2)
  have "to_node v \<in> fst ` set (index_init ns :: ('a, 'b) index)"
    and "from_node v \<in> fst ` set (index_init ns :: ('a, 'b) index)"
    by blast+
  then show ?thesis by (auto simp: index_init_def)
qed

lemma DependencyGraph_init_endpoints:
  assumes "DependencyGraph_init depth seeds ps = Inr g" and "v \<in> set (vertices g)"
  shows "from_node v \<in> set (nodes g) \<and> to_node v \<in> set (nodes g)"
proof -
  from assms(1) obtain out ns ok where
    acyc: "is_acyclic ns (vset out) = Inr ok" and g: "g = \<lparr>nodes = ns, plugins = ps, vertices = vset out\<rparr>"
    by (auto simp: DependencyGraph_init_def split: sum.splits if_splits)
  from is_acyclic_endpoints [OF acyc, of v] assms(2) g show ?thesis by simp
qed

subsection \<open>Queries and call depth\<close>

lemma dependencies_no_outgoing:
  "\<forall>v \<in> set (vertices g). from_node v \<noteq> node \<Longrightarrow> dependencies depth g node follow = Inr []"
  by (simp add: filter_empty_conv[THEN iffD2])


text \<open>A result that is reached with some call depth is reached with any larger one.\<close>

lemma build_mono:
  "(\<forall>r d'. build_vertices d ps n S = Inr r \<longrightarrow> d \<le> d' \<longrightarrow> build_vertices d' ps n S = Inr r)"
  "(\<forall>r d'. build_loop d ps vs S = Inr r \<longrightarrow> d \<le> d' \<longrightarrow> build_loop d' ps vs S = Inr r)"
proof (induction d ps n S and d ps vs S rule: build_vertices_build_loop.induct)
  case (1 depth ps node ns)
  show ?case unfolding build_vertices.simps by (rule 1)
next
  case (2 depth ps ns)
  show ?case by simp
next
  case (3 depth ps v vs ns)
  show ?case
  proof (intro allI impI)
    fix r d'
    assume run: "build_loop depth ps (v # vs) ns = Inr r" and le: "depth \<le> d'"
    show "build_loop d' ps (v # vs) ns = Inr r"
    proof (cases "to_node v \<in> set ns")
      case True
      with run obtain rest ns2 where
        a: "build_loop depth ps vs ns = Inr (rest, ns2)" and r: "r = (v # rest, ns2)"
        by (auto split: sum.splits)
      from 3(3) True a le have "build_loop d' ps vs ns = Inr (rest, ns2)" by blast
      with True r show ?thesis by simp
    next
      case False
      with run obtain d0 where d0: "depth = Suc d0"
        by (cases depth) auto
      with le obtain d0' where d0': "d' = Suc d0'" and le0: "d0 \<le> d0'"
        by (cases d') auto
      from run False d0 obtain sub ns1 rest ns2 where
        a: "build_vertices d0 ps (to_node v) (ns @ [to_node v]) = Inr (sub, ns1)" and
        b: "build_loop depth ps vs ns1 = Inr (rest, ns2)" and r: "r = (sub @ v # rest, ns2)"
        by (auto simp del: build_vertices.simps split: sum.splits)
      from 3(1) [OF False d0] a le0
      have a': "build_vertices d0' ps (to_node v) (ns @ [to_node v]) = Inr (sub, ns1)" by blast
      from 3(2) [OF False d0 a refl] b le
      have b': "build_loop d' ps vs ns1 = Inr (rest, ns2)" by blast
      from False d0' a' b' r show ?thesis by (simp del: build_vertices.simps)
    qed
  qed
qed

lemma dependencies_mono:
  "(\<forall>r d'. dependencies d g n f = Inr r \<longrightarrow> d \<le> d' \<longrightarrow> dependencies d' g n f = Inr r)"
  "(\<forall>r d'. dependencies_loop d g vs f = Inr r \<longrightarrow> d \<le> d' \<longrightarrow> dependencies_loop d' g vs f = Inr r)"
proof (induction d g n f and d g vs f rule: dependencies_dependencies_loop.induct)
  case (1 depth g node follow)
  show ?case unfolding dependencies.simps by (rule 1)
next
  case (2 depth g follow)
  show ?case by simp
next
  case (3 depth g v vs follow)
  show ?case
  proof (intro allI impI)
    fix r d'
    assume run: "dependencies_loop depth g (v # vs) follow = Inr r" and le: "depth \<le> d'"
    show "dependencies_loop d' g (v # vs) follow = Inr r"
    proof (cases follow)
      case False
      with run obtain rest where
        a: "dependencies_loop depth g vs follow = Inr rest" and r: "r = to_node v # rest"
        by (auto split: sum.splits)
      from 3(3) False a le have "dependencies_loop d' g vs follow = Inr rest" by blast
      with False r show ?thesis by simp
    next
      case True
      with run obtain d0 where d0: "depth = Suc d0"
        by (cases depth) auto
      with le obtain d0' where d0': "d' = Suc d0'" and le0: "d0 \<le> d0'"
        by (cases d') auto
      from run True d0 obtain sub rest where
        a: "dependencies d0 g (to_node v) follow = Inr sub" and
        b: "dependencies_loop depth g vs follow = Inr rest" and r: "r = to_node v # sub @ rest"
        by (auto simp del: dependencies.simps split: sum.splits)
      from 3(1) [OF True d0] a le0
      have a': "dependencies d0' g (to_node v) follow = Inr sub" by blast
      from 3(2) [OF True d0 a] b le
      have b': "dependencies_loop d' g vs follow = Inr rest" by blast
      from True d0' a' b' r show ?thesis by (simp del: dependencies.simps)
    qed
  qed
qed

lemma generate_vertices_mono:
  "generate_vertices d ps todo ns = Inr r \<Longrightarrow> d \<le> d' \<Longrightarrow> generate_vertices d' ps todo ns = Inr r"
proof (induction todo arbitrary: ns r)
  case Nil
  then show ?case by simp
next
  case (Cons node todo)
  from Cons.prems(1) obtain out ns1 where
    a: "build_vertices d ps node ns = Inr (out, ns1)"
    by (cases "build_vertices d ps node ns") (auto simp del: build_vertices.simps)
  with Cons.prems(1) obtain rest ns2 where
    b: "generate_vertices d ps todo ns1 = Inr (rest, ns2)" and r: "r = (out @ rest, ns2)"
    by (cases "generate_vertices d ps todo ns1") (auto simp del: build_vertices.simps)
  from build_mono(1) [of d ps node ns] a Cons.prems(2)
  have a': "build_vertices d' ps node ns = Inr (out, ns1)" by blast
  from Cons.IH [OF b Cons.prems(2)] have b': "generate_vertices d' ps todo ns1 = Inr (rest, ns2)" .
  show ?case unfolding generate_vertices.simps a' r by (simp add: b')
qed


lemma DependencyGraph_init_mono:
  assumes "DependencyGraph_init d seeds ps = Inr g" and "d \<le> d'"
  shows "DependencyGraph_init d' seeds ps = Inr g"
proof -
  from assms(1) obtain r where
    a: "generate_vertices d ps (rev (nset seeds)) (nset seeds) = Inr r"
    unfolding DependencyGraph_init_def
    by (cases "generate_vertices d ps (rev (nset seeds)) (nset seeds)") simp_all
  from generate_vertices_mono [OF a assms(2)] a
  have eq: "generate_vertices d' ps (rev (nset seeds)) (nset seeds)
      = generate_vertices d ps (rev (nset seeds)) (nset seeds)" by simp
  from assms(1) show ?thesis unfolding DependencyGraph_init_def eq .
qed

section \<open>The examples of the test suite\<close>

text \<open>The definitions that evaluate a construction on concrete input.\<close>

lemmas eval_defs = StaticDependencies_def StaticDependencies_vertices_def Vertex_static_def
  nset_def nset_add_def vset_def vset_add_def vmem_def vertex_eq_def vset_diff_def
  index_init_def index_add_def index_get_def is_acyclic_def

lemma single_node_discovery:
  "generate_vertices 3 [StaticDependencies single_node_table :: (string, unit) plugin]
       (rev (nset [''A''])) (nset [''A''])
     = Inr (vertices single_node_graph, nodes single_node_graph)"
  by (simp add: eval_defs single_node_table_def single_node_graph_def)

lemma single_node_vset: "vset (vertices single_node_graph) = vertices single_node_graph"
  by (simp add: eval_defs single_node_graph_def)

lemma single_node_is_acyclic:
  "is_acyclic (nodes single_node_graph) (vertices single_node_graph) = Inr True"
  by (simp add: eval_defs single_node_graph_def elim.simps)


lemma single_node_init:
  "DependencyGraph_init 3 [''A''] [StaticDependencies single_node_table] = Inr single_node_graph"
  unfolding DependencyGraph_init_def single_node_discovery
  by (simp add: single_node_vset single_node_is_acyclic) (simp add: single_node_graph_def)

lemma single_node_queries:
  "dependencies 3 single_node_graph ''A'' True
     = Inr [''B'', ''C'', ''D'', ''E'', ''C'', ''D'', ''E'']"
  "dependencies 3 single_node_graph ''D'' True = Inr [''E'']"
  "dependencies 0 single_node_graph ''C'' True = Inr []"
  by (simp_all add: single_node_graph_def Vertex_static_def)

text \<open>
  Claim C2. For the seed \<^verbatim>\<open>A\<close> and the table A to (B, C, D), B to (C, D), D to (E),
  construction succeeds whenever the call depth allows three nested calls; the graph has the
  five nodes A to E and the six vertices A-B, A-C, A-D, B-C, B-D, D-E, and the transitive
  query yields the set B, C, D, E for A, the set E for D and nothing for C.
\<close>

theorem single_node_example:
  assumes "3 \<le> depth"
  shows "\<exists>g. DependencyGraph_init depth [''A'']
               [StaticDependencies single_node_table :: (string, unit) plugin] = Inr g
     \<and> set (nodes g) = {''A'', ''B'', ''C'', ''D'', ''E''} \<and> length (nodes g) = 5
     \<and> set (map (\<lambda>v. (from_node v, to_node v)) (vertices g))
         = {(''A'', ''B''), (''A'', ''C''), (''A'', ''D''), (''B'', ''C''), (''B'', ''D''),
            (''D'', ''E'')}
     \<and> length (vertices g) = 6
     \<and> (\<exists>ds. dependencies depth g ''A'' True = Inr ds \<and> set ds = {''B'', ''C'', ''D'', ''E''})
     \<and> (\<exists>ds. dependencies depth g ''D'' True = Inr ds \<and> set ds = {''E''})
     \<and> (\<exists>ds. dependencies depth g ''C'' True = Inr ds \<and> set ds = {})"
proof -
  have init: "DependencyGraph_init depth [''A''] [StaticDependencies single_node_table]
      = Inr single_node_graph"
    using DependencyGraph_init_mono [OF single_node_init assms] .
  have a: "dependencies depth single_node_graph ''A'' True
      = Inr [''B'', ''C'', ''D'', ''E'', ''C'', ''D'', ''E'']"
    using dependencies_mono(1) [rule_format, OF single_node_queries(1) assms] .
  have d: "dependencies depth single_node_graph ''D'' True = Inr [''E'']"
    using dependencies_mono(1) [rule_format, OF single_node_queries(2) assms] .
  have c: "dependencies depth single_node_graph ''C'' True = Inr []"
    using dependencies_mono(1) [rule_format, OF single_node_queries(3)] by simp
  have n: "set (nodes single_node_graph) = {''A'', ''B'', ''C'', ''D'', ''E''}"
    "length (nodes single_node_graph) = 5" "length (vertices single_node_graph) = 6"
    by (simp_all add: single_node_graph_def)
  have e: "set (map (\<lambda>v. (from_node v, to_node v)) (vertices single_node_graph))
         = {(''A'', ''B''), (''A'', ''C''), (''A'', ''D''), (''B'', ''C''), (''B'', ''D''),
            (''D'', ''E'')}"
    by (auto simp: single_node_graph_def Vertex_static_def)
  show ?thesis
    by (rule exI [of _ single_node_graph]) (simp only: init a d c n e, simp, blast)
qed

theorem single_node_example_witness:
  "\<exists>g. DependencyGraph_init 3 [''A'']
               [StaticDependencies single_node_table :: (string, unit) plugin] = Inr g
     \<and> set (nodes g) = {''A'', ''B'', ''C'', ''D'', ''E''} \<and> length (nodes g) = 5
     \<and> set (map (\<lambda>v. (from_node v, to_node v)) (vertices g))
         = {(''A'', ''B''), (''A'', ''C''), (''A'', ''D''), (''B'', ''C''), (''B'', ''D''),
            (''D'', ''E'')}
     \<and> length (vertices g) = 6
     \<and> (\<exists>ds. dependencies 3 g ''A'' True = Inr ds \<and> set ds = {''B'', ''C'', ''D'', ''E''})
     \<and> (\<exists>ds. dependencies 3 g ''D'' True = Inr ds \<and> set ds = {''E''})
     \<and> (\<exists>ds. dependencies 3 g ''C'' True = Inr ds \<and> set ds = {})"
  using single_node_example [of 3] by (simp del: dependencies.simps)

text \<open>
  Claim C5. In a graph that construction returns, both end nodes of every vertex are
  nodes of the graph, whatever the seeds and the plugins: a vertex with an end node outside
  \<^verbatim>\<open>self.nodes\<close> makes the index of \<^verbatim>\<open>is_acyclic\<close> raise \<^verbatim>\<open>KeyError\<close>.
\<close>

theorem DependencyGraph_endpoints_in_nodes:
  "DependencyGraph_init depth seeds ps = Inr g \<Longrightarrow>
     \<forall>v \<in> set (vertices g). from_node v \<in> set (nodes g) \<and> to_node v \<in> set (nodes g)"
  using DependencyGraph_init_endpoints by blast

theorem DependencyGraph_endpoints_in_nodes_witness:
  "set (map from_node (vertices single_node_graph)) \<subseteq> set (nodes single_node_graph)
   \<and> set (map to_node (vertices single_node_graph)) \<subseteq> set (nodes single_node_graph)"
  using DependencyGraph_endpoints_in_nodes [OF single_node_init] by auto

text \<open>
  Claim C7. On a graph that construction returned, for a node that is not a node of the
  graph and for a node without outgoing vertex, the direct and the transitive query both
  return the empty sequence, at any call depth.
\<close>

theorem queries_on_unknown_and_leaf_nodes:
  assumes "DependencyGraph_init depth seeds ps = Inr g"
  shows "(node \<notin> set (nodes g) \<longrightarrow>
            dependencies d g node False = Inr [] \<and> dependencies d g node True = Inr [])
       \<and> ((\<forall>v \<in> set (vertices g). from_node v \<noteq> node) \<longrightarrow>
            dependencies d g node False = Inr [] \<and> dependencies d g node True = Inr [])"
proof (intro conjI impI)
  assume "node \<notin> set (nodes g)"
  with DependencyGraph_init_endpoints [OF assms]
  have none: "\<forall>v \<in> set (vertices g). from_node v \<noteq> node" by blast
  from dependencies_no_outgoing [OF none]
  show "dependencies d g node False = Inr []" "dependencies d g node True = Inr []" by blast+
next
  assume none: "\<forall>v \<in> set (vertices g). from_node v \<noteq> node"
  from dependencies_no_outgoing [OF none]
  show "dependencies d g node False = Inr []" "dependencies d g node True = Inr []" by blast+
qed

theorem queries_on_unknown_and_leaf_nodes_witness:
  "''Z'' \<notin> set (nodes single_node_graph)
   \<and> dependencies 0 single_node_graph ''Z'' False = Inr []
   \<and> dependencies 0 single_node_graph ''Z'' True = Inr []
   \<and> ''C'' \<in> set (nodes single_node_graph)
   \<and> dependencies 0 single_node_graph ''C'' False = Inr []
   \<and> dependencies 0 single_node_graph ''C'' True = Inr []"
proof -
  have z: "''Z'' \<notin> set (nodes single_node_graph)" and c: "''C'' \<in> set (nodes single_node_graph)"
    and leaf: "\<forall>v \<in> set (vertices single_node_graph). from_node v \<noteq> ''C''"
    by (simp_all add: single_node_graph_def Vertex_static_def)
  from queries_on_unknown_and_leaf_nodes [OF single_node_init, of "''Z''" 0] z
    queries_on_unknown_and_leaf_nodes [OF single_node_init, of "''C''" 0] leaf c
  show ?thesis by blast
qed

section \<open>The cycle check and the cycles of the graph\<close>

lemma cyclic_discovery:
  "generate_vertices 2 [StaticDependencies cyclic_table :: (string, unit) plugin]
       (rev (nset [''A''])) (nset [''A''])
     = Inr (vertices cyclic_graph, nodes cyclic_graph)"
  by (simp add: eval_defs cyclic_table_def cyclic_graph_def)

lemma cyclic_vset: "vset (vertices cyclic_graph) = vertices cyclic_graph"
  by (simp add: eval_defs cyclic_graph_def)

lemma cyclic_is_acyclic:
  "is_acyclic (nodes cyclic_graph) (vertices cyclic_graph) = Inr True"
  by (simp add: eval_defs cyclic_graph_def elim.simps)

text \<open>
  The verdict does not rest on the order of iteration: \<^verbatim>\<open>A\<close> is the only node that starts
  the stack, and the cycle check answers \<^verbatim>\<open>True\<close> for each of the 24 orders of the four
  vertices.
\<close>

lemma cyclic_any_order:
  "list_all (\<lambda>vs. is_acyclic [''A'', ''B'', ''C''] vs = Inr True) (orders (vertices cyclic_graph))"
  by (simp add: eval_defs cyclic_graph_def elim.simps upt_rec)

lemma cyclic_init:
  "DependencyGraph_init 2 [''A''] [StaticDependencies cyclic_table] = Inr cyclic_graph"
  unfolding DependencyGraph_init_def cyclic_discovery
  by (simp add: cyclic_vset cyclic_is_acyclic) (simp add: cyclic_graph_def)

lemma cyclic_has_cycle: "has_cycle (vertices cyclic_graph)"
proof -
  have "(''B'', ''C'') \<in> edge_rel (vertices cyclic_graph)"
    and "(''C'', ''B'') \<in> edge_rel (vertices cyclic_graph)"
    by (simp_all add: edge_rel_def cyclic_graph_def Vertex_static_def)
  then have "(''B'', ''B'') \<in> (edge_rel (vertices cyclic_graph))\<^sup>+"
    by (meson trancl.r_into_trancl trancl_trans)
  then show ?thesis unfolding has_cycle_def by blast
qed

lemma cyclic_query_step:
  "dependencies (Suc d) cyclic_graph ''B'' True
     = (case dependencies d cyclic_graph ''C'' True of Inl e \<Rightarrow> Inl e
        | Inr sub \<Rightarrow> Inr (''C'' # sub))"
  "dependencies (Suc d) cyclic_graph ''C'' True
     = (case dependencies d cyclic_graph ''B'' True of Inl e \<Rightarrow> Inl e
        | Inr sub \<Rightarrow> Inr (''B'' # sub))"
  "dependencies 0 cyclic_graph ''B'' True = Inl RecursionError"
  "dependencies 0 cyclic_graph ''C'' True = Inl RecursionError"
  by (simp_all add: cyclic_graph_def Vertex_static_def split: sum.splits)

lemma cyclic_query_both:
  "dependencies d cyclic_graph ''B'' True = Inl RecursionError
   \<and> dependencies d cyclic_graph ''C'' True = Inl RecursionError"
proof (induction d)
  case 0
  show ?case by (simp only: cyclic_query_step)
next
  case (Suc d)
  then show ?case by (simp only: cyclic_query_step sum.case)
qed

lemma cyclic_query: "dependencies d cyclic_graph ''B'' True = Inl RecursionError"
  using cyclic_query_both by blast

text \<open>
  Claim C1 says that construction raises \<^verbatim>\<open>CircularDependencyError\<close> exactly when the
  discovered graph holds a directed cycle. The code does otherwise: for the seed \<^verbatim>\<open>A\<close> and
  the table A to (B, C), B to (C), C to (B), at any call depth that allows two nested calls,
  construction returns a graph, its vertices hold a cycle, and the transitive query on
  \<^verbatim>\<open>B\<close> then raises \<^verbatim>\<open>RecursionError\<close>. The loop of \<^verbatim>\<open>is_acyclic\<close> deletes every vertex out
  of a popped node, and tests the vertices into the popped node, not those into the target,
  before it pushes the target.
\<close>

theorem cyclic_graph_is_constructed:
  "\<exists>g. DependencyGraph_init (2 + d) [''A'']
          [StaticDependencies cyclic_table :: (string, unit) plugin] = Inr g
       \<and> has_cycle (vertices g)
       \<and> dependencies (2 + d) g ''B'' True = Inl RecursionError"
proof -
  have init: "DependencyGraph_init (2 + d) [''A''] [StaticDependencies cyclic_table]
      = Inr cyclic_graph"
    using DependencyGraph_init_mono [OF cyclic_init, of "2 + d"] by simp
  have query: "dependencies (2 + d) cyclic_graph ''B'' True = Inl RecursionError"
    by (rule cyclic_query)
  show ?thesis
    using init query cyclic_has_cycle by (intro exI [of _ cyclic_graph] conjI)
qed

text \<open>
  In the other direction, the seeds \<^verbatim>\<open>A\<close> and \<^verbatim>\<open>C\<close> with the table A to (B), C to (B),
  B to (D), D to (E) give a graph without cycle that construction rejects: \<^verbatim>\<open>B\<close> is
  popped while one of the two vertices into it is still there, so \<^verbatim>\<open>D\<close> is never pushed and
  the vertex from \<^verbatim>\<open>D\<close> to \<^verbatim>\<open>E\<close> is never deleted, whichever seed comes first.
\<close>

lemma diamond_discovery:
  "generate_vertices 3 [StaticDependencies diamond_table :: (string, unit) plugin]
       (rev (nset [''A'', ''C''])) (nset [''A'', ''C''])
     = Inr (diamond_vertices, [''A'', ''C'', ''B'', ''D'', ''E''])"
  by (simp add: eval_defs diamond_table_def diamond_vertices_def)

lemma diamond_vset: "vset diamond_vertices = diamond_vertices"
  by (simp add: eval_defs diamond_vertices_def)

lemma diamond_is_acyclic:
  "is_acyclic [''A'', ''C'', ''B'', ''D'', ''E''] diamond_vertices = Inr False"
  by (simp add: eval_defs diamond_vertices_def elim.simps)

lemma diamond_init:
  "DependencyGraph_init 3 [''A'', ''C''] [StaticDependencies diamond_table :: (string, unit) plugin]
     = Inl CircularDependencyError"
  unfolding DependencyGraph_init_def diamond_discovery
  by (simp add: diamond_vset diamond_is_acyclic)


lemma diamond_init_other_order:
  "DependencyGraph_init 3 [''C'', ''A''] [StaticDependencies diamond_table :: (string, unit) plugin]
     = Inl CircularDependencyError"
  by (simp add: DependencyGraph_init_def eval_defs diamond_table_def elim.simps)

lemma trancl_rank:
  assumes "(a, b) \<in> r\<^sup>+" and "\<And>x y. (x, y) \<in> r \<Longrightarrow> rank x < (rank y :: nat)"
  shows "rank a < rank b"
  using assms(1)
proof (induction rule: trancl.induct)
  case (r_into_trancl a b)
  then show ?case by (rule assms(2))
next
  case (trancl_into_trancl a b c)
  from trancl_into_trancl.IH assms(2) [OF trancl_into_trancl.hyps(2)] show ?case by simp
qed

lemma diamond_no_cycle: "\<not> has_cycle diamond_vertices"
proof
  let ?rank = "\<lambda>x. if x = ''E'' then 3 else if x = ''D'' then 2 else if x = ''B'' then 1 else (0::nat)"
  assume "has_cycle diamond_vertices"
  then obtain n where "(n, n) \<in> (edge_rel diamond_vertices)\<^sup>+"
    unfolding has_cycle_def by blast
  then have "?rank n < ?rank n"
    by (rule trancl_rank) (auto simp: edge_rel_def diamond_vertices_def Vertex_static_def)
  then show False by simp
qed

lemma acyclic_graph_is_rejected:
  "DependencyGraph_init 3 [''A'', ''C''] [StaticDependencies diamond_table :: (string, unit) plugin]
     = Inl CircularDependencyError
   \<and> DependencyGraph_init 3 [''C'', ''A''] [StaticDependencies diamond_table :: (string, unit) plugin]
     = Inl CircularDependencyError
   \<and> generate_vertices 3 [StaticDependencies diamond_table :: (string, unit) plugin]
       (rev (nset [''A'', ''C''])) (nset [''A'', ''C''])
     = Inr (diamond_vertices, [''A'', ''C'', ''B'', ''D'', ''E''])
   \<and> \<not> has_cycle diamond_vertices"
  using diamond_init diamond_init_other_order diamond_discovery diamond_no_cycle
  by (intro conjI)

section \<open>Chains and the call depth\<close>

lemma chain_rows:
  "concat (map (\<lambda>d. if fst d = n then map (Vertex_static n) (snd d) else [])
       (map (\<lambda>i. (i, [Suc i])) [0..<M]))
     = (if n < M then [Vertex_static n (Suc n)] else [])"
  by (induction M) auto

lemma chain_vertices:
  "plugin_vertices (StaticDependencies (chain_table N)) n
     = (if Suc n < N then [chain_edge n] else [])"
  unfolding StaticDependencies_def StaticDependencies_vertices_def chain_table_def chain_edge_def
    plugin.simps chain_rows
  by (simp add: less_diff_conv)

lemma from_node_chain_edge [simp]: "from_node (chain_edge i) = i"
  and to_node_chain_edge [simp]: "to_node (chain_edge i) = Suc i"
  by (simp_all add: chain_edge_def Vertex_static_def)

lemma chain_build_step:
  "build_vertices d (chain_plugins N) n ns =
     (if Suc n < N then build_loop d (chain_plugins N) [chain_edge n] ns else Inr ([], ns))"
  unfolding build_vertices.simps chain_plugins_def
  by (simp add: chain_vertices) (simp add: StaticDependencies_def)

lemma chain_build:
  "n < N \<Longrightarrow> N - Suc n \<le> d \<Longrightarrow> set ns \<inter> {Suc n..<N} = {} \<Longrightarrow>
     build_vertices d (chain_plugins N) n ns
       = Inr (map chain_edge (rev [n..<N - 1]), ns @ [Suc n..<N])"
proof (induction k \<equiv> "N - Suc n" arbitrary: n d ns)
  case 0
  then have "\<not> Suc n < N" by simp
  with 0 show ?case by (simp add: chain_build_step del: build_vertices.simps)
next
  case (Suc k)
  then have lt: "Suc n < N" by simp
  from Suc.prems(2) Suc.hyps(2) obtain d' where d: "d = Suc d'" by (cases d) auto
  from Suc.prems(3) lt have new: "Suc n \<notin> set ns" by auto
  have sub: "build_vertices d' (chain_plugins N) (Suc n) (ns @ [Suc n])
      = Inr (map chain_edge (rev [Suc n..<N - 1]), (ns @ [Suc n]) @ [Suc (Suc n)..<N])"
  proof (rule Suc.hyps(1))
    show "k = N - Suc (Suc n)" using Suc.hyps(2) by simp
    show "Suc n < N" by (rule lt)
    show "N - Suc (Suc n) \<le> d'" using Suc.prems(2) d by simp
    show "set (ns @ [Suc n]) \<inter> {Suc (Suc n)..<N} = {}" using Suc.prems(3) by auto
  qed
  have l1: "[n..<N - Suc 0] = n # [Suc n..<N - Suc 0]" using lt by (simp add: upt_conv_Cons)
  have l2: "[Suc n..<N] = Suc n # [Suc (Suc n)..<N]" using lt by (simp add: upt_conv_Cons)
  show ?case
    unfolding chain_build_step [of d N n ns] using lt new
    by (simp add: d sub l1 l2 del: build_vertices.simps)
qed

lemma chain_build_fails:
  "d < N - Suc n \<Longrightarrow> set ns \<inter> {Suc n..<N} = {} \<Longrightarrow>
     build_vertices d (chain_plugins N) n ns = Inl RecursionError"
proof (induction d arbitrary: n ns)
  case 0
  then have lt: "Suc n < N" and new: "Suc n \<notin> set ns" by auto
  show ?case unfolding chain_build_step [of 0 N n ns] using lt new
    by (simp del: build_vertices.simps)
next
  case (Suc d)
  then have lt: "Suc n < N" and new: "Suc n \<notin> set ns" by auto
  have sub: "build_vertices d (chain_plugins N) (Suc n) (ns @ [Suc n]) = Inl RecursionError"
    by (rule Suc.IH) (use Suc.prems in auto)
  show ?case unfolding chain_build_step [of "Suc d" N n ns] using lt new
    by (simp add: sub del: build_vertices.simps)
qed

lemma vset_fold_distinct:
  "distinct (map from_node (acc @ xs)) \<Longrightarrow> foldl (\<lambda>s v. vset_add v s) acc xs = acc @ xs"
proof (induction xs arbitrary: acc)
  case Nil
  then show ?case by simp
next
  case (Cons x xs)
  from Cons.prems have "\<not> vmem x acc"
    by (auto simp: vmem_def vertex_eq_def image_iff)
  then have "vset_add x acc = acc @ [x]" by (simp add: vset_add_def)
  with Cons.IH [of "acc @ [x]"] Cons.prems show ?case by simp
qed

lemma vset_distinct: "distinct (map from_node xs) \<Longrightarrow> vset xs = xs"
  using vset_fold_distinct [of "[]" xs] by (simp add: vset_def)

lemma chain_vset: "vset (map chain_edge (rev [n..<M])) = map chain_edge (rev [n..<M])"
  by (rule vset_distinct) (simp add: comp_def distinct_rev flip: rev_map)

text \<open>What the two indexes hold once they are built.\<close>

lemma map_of_index_update:
  "map_of (map (\<lambda>(k', s). if k' = k then (k', f s) else (k', s)) d) x
     = (if x = k then map_option f (map_of d x) else map_of d x)"
  by (induction d) auto

lemma index_add_lookup:
  assumes "k \<in> fst ` set d"
  shows "\<exists>d'. index_add k v d = Inr d' \<and> fst ` set d' = fst ` set d
     \<and> (\<forall>x. map_of d' x = (if x = k then map_option (vset_add v) (map_of d x) else map_of d x))"
proof -
  from assms obtain s where s: "map_of d k = Some s"
    by (metis domD dom_map_of_conv_image_fst)
  let ?d' = "map (\<lambda>(k', s). if k' = k then (k', vset_add v s) else (k', s)) d"
  have "index_add k v d = Inr ?d'" by (simp add: index_add_def s)
  moreover have "map fst ?d' = map fst d" by (induction d) auto
  then have "fst ` set ?d' = fst ` set d" by (metis list.set_map)
  ultimately show ?thesis by (simp add: map_of_index_update)
qed

lemma build_index_lookup:
  assumes "\<forall>v \<in> set vs. to_node v \<in> fst ` set ct \<and> from_node v \<in> fst ` set fn"
  shows "\<exists>ct' fn'. build_index vs ct fn = Inr (ct', fn')
     \<and> (\<forall>x. map_of ct' x
           = map_option (\<lambda>s. foldl (\<lambda>s v. vset_add v s) s (filter (\<lambda>v. to_node v = x) vs))
               (map_of ct x))
     \<and> (\<forall>x. map_of fn' x
           = map_option (\<lambda>s. foldl (\<lambda>s v. vset_add v s) s (filter (\<lambda>v. from_node v = x) vs))
               (map_of fn x))"
  using assms
proof (induction vs arbitrary: ct fn)
  case Nil
  show ?case by (simp add: option.map_ident)
next
  case (Cons v vs)
  from Cons.prems index_add_lookup [of "to_node v" ct v] obtain ct1 where
    a: "index_add (to_node v) v ct = Inr ct1" and ka: "fst ` set ct1 = fst ` set ct" and
    la: "\<And>x. map_of ct1 x
        = (if x = to_node v then map_option (vset_add v) (map_of ct x) else map_of ct x)"
    by auto
  from Cons.prems index_add_lookup [of "from_node v" fn v] obtain fn1 where
    b: "index_add (from_node v) v fn = Inr fn1" and kb: "fst ` set fn1 = fst ` set fn" and
    lb: "\<And>x. map_of fn1 x
        = (if x = from_node v then map_option (vset_add v) (map_of fn x) else map_of fn x)"
    by auto
  from Cons.prems ka kb
  have "\<forall>v \<in> set vs. to_node v \<in> fst ` set ct1 \<and> from_node v \<in> fst ` set fn1" by simp
  from Cons.IH [OF this] obtain ct' fn' where
    run: "build_index vs ct1 fn1 = Inr (ct', fn')" and
    lc: "\<And>x. map_of ct' x
           = map_option (\<lambda>s. foldl (\<lambda>s v. vset_add v s) s (filter (\<lambda>v. to_node v = x) vs))
               (map_of ct1 x)" and
    lf: "\<And>x. map_of fn' x
           = map_option (\<lambda>s. foldl (\<lambda>s v. vset_add v s) s (filter (\<lambda>v. from_node v = x) vs))
               (map_of fn1 x)"
    by blast
  have "build_index (v # vs) ct fn = Inr (ct', fn')" by (simp add: a b run)
  moreover have "map_of ct' x
      = map_option (\<lambda>s. foldl (\<lambda>s v. vset_add v s) s (filter (\<lambda>v. to_node v = x) (v # vs)))
          (map_of ct x)" for x
    unfolding lc la by (cases "map_of ct x") auto
  moreover have "map_of fn' x
      = map_option (\<lambda>s. foldl (\<lambda>s v. vset_add v s) s (filter (\<lambda>v. from_node v = x) (v # vs)))
          (map_of fn x)" for x
    unfolding lf lb by (cases "map_of fn x") auto
  ultimately show ?case by blast
qed

lemma map_of_index_init: "map_of (index_init ns) x = (if x \<in> set ns then Some [] else None)"
  unfolding index_init_def by (induction ns) auto

lemma free_nodes_filter:
  "\<forall>n \<in> set ns. map_of ct n \<noteq> None \<Longrightarrow>
     free_nodes ct ns = Inr (filter (\<lambda>n. map_of ct n = Some []) ns)"
  by (induction ns) (auto simp: index_get_def)

text \<open>The cycle check accepts every chain.\<close>

lemma vertex_eq_chain_edge [simp]: "vertex_eq (chain_edge i) (chain_edge j) \<longleftrightarrow> i = j"
  by (auto simp: vertex_eq_def chain_edge_def Vertex_static_def)

lemma vmem_chain_edge [simp]: "vmem (chain_edge j) (map chain_edge l) \<longleftrightarrow> j \<in> set l"
  by (auto simp: vmem_def)

lemma filter_eq_upt: "filter (\<lambda>i. i = x) (rev [0..<M]) = (if x < M then [x] else [])"
  by (induction M) auto

lemma filter_Suc_eq_upt:
  "filter (\<lambda>i. Suc i = x) (rev [0..<M]) = (if 0 < x \<and> x \<le> M then [x - 1] else [])"
  by (induction M) auto

lemma chain_outgoing:
  "filter (\<lambda>v. from_node v = x) (map chain_edge (rev [0..<M]))
     = (if x < M then [chain_edge x] else [])"
  by (simp add: filter_map comp_def filter_eq_upt)

lemma chain_incoming:
  "filter (\<lambda>v. to_node v = x) (map chain_edge (rev [0..<M]))
     = (if 0 < x \<and> x \<le> M then [chain_edge (x - 1)] else [])"
  by (simp add: filter_map comp_def filter_Suc_eq_upt)

lemma chain_index:
  assumes "0 < N"
  shows "\<exists>ct fn. build_index (map chain_edge (rev [0..<N - 1])) (index_init [0..<N])
        (index_init [0..<N]) = Inr (ct, fn)
     \<and> (\<forall>x < N. map_of ct x = Some (if 0 < x then [chain_edge (x - 1)] else []))
     \<and> (\<forall>x < N. map_of fn x = Some (if Suc x < N then [chain_edge x] else []))"
proof -
  have keys: "\<forall>v \<in> set (map chain_edge (rev [0..<N - 1])).
      to_node v \<in> fst ` set (index_init [0..<N] :: (nat, unit) index)
      \<and> from_node v \<in> fst ` set (index_init [0..<N] :: (nat, unit) index)"
    by (auto simp: index_init_def image_iff)
  from build_index_lookup [OF keys] obtain ct fn where
    run: "build_index (map chain_edge (rev [0..<N - 1])) (index_init [0..<N])
        (index_init [0..<N]) = Inr (ct, fn)" and
    lc: "\<And>x. map_of ct x = map_option (\<lambda>s. foldl (\<lambda>s v. vset_add v s) s
            (filter (\<lambda>v. to_node v = x) (map chain_edge (rev [0..<N - 1]))))
          (map_of (index_init [0..<N]) x)" and
    lf: "\<And>x. map_of fn x = map_option (\<lambda>s. foldl (\<lambda>s v. vset_add v s) s
            (filter (\<lambda>v. from_node v = x) (map chain_edge (rev [0..<N - 1]))))
          (map_of (index_init [0..<N]) x)"
    by blast
  have "map_of ct x = Some (if 0 < x then [chain_edge (x - 1)] else [])" if "x < N" for x
    unfolding lc chain_incoming map_of_index_init using that
    by (auto simp: vset_add_def vmem_def)
  moreover have "map_of fn x = Some (if Suc x < N then [chain_edge x] else [])" if "x < N" for x
    unfolding lf chain_outgoing map_of_index_init using that
    by (auto simp: vset_add_def vmem_def)
  ultimately show ?thesis using run by blast
qed

lemma chain_elim:
  assumes ct: "\<forall>x < N. map_of ct x = Some (if 0 < x then [chain_edge (x - 1)] else [])"
    and fn: "\<forall>x < N. map_of fn x = Some (if Suc x < N then [chain_edge x] else [])"
  shows "k < N \<Longrightarrow> elim ct fn [k] (map chain_edge [0..<k]) = Inr (map chain_edge [0..<N - 1])"
proof (induction j \<equiv> "N - Suc k" arbitrary: k)
  case 0
  then have k: "Suc k = N" by simp
  with fn have "index_get fn k = Inr []" by (simp add: index_get_def)
  then have "elim ct fn [k] (map chain_edge [0..<k]) = elim ct fn [] (map chain_edge [0..<k])"
    by (subst elim.simps) (simp add: vset_diff_def)
  also have "\<dots> = Inr (map chain_edge [0..<k])" by (subst elim.simps) simp
  finally show ?case using k by auto
next
  case (Suc j)
  then have lt: "Suc k < N" by simp
  with fn have out: "index_get fn k = Inr [chain_edge k]" by (simp add: index_get_def)
  define incoming where "incoming = (if 0 < k then [chain_edge (k - 1)] else [])"
  from ct lt have inc: "index_get ct k = Inr incoming"
    by (simp add: index_get_def incoming_def)
  have add: "vset_add (chain_edge k) (map chain_edge [0..<k]) = map chain_edge [0..<Suc k]"
    by (simp add: vset_add_def)
  have gone: "vset_diff incoming (map chain_edge [0..<Suc k]) = []"
    unfolding vset_diff_def incoming_def by (auto simp del: upt_Suc)
  have step: "delete_loop ct k [chain_edge k] (map chain_edge [0..<k]) []
      = Inr (map chain_edge [0..<Suc k], [Suc k])"
    by (simp add: inc add gone del: upt_Suc)
  have "elim ct fn [k] (map chain_edge [0..<k]) = elim ct fn [Suc k] (map chain_edge [0..<Suc k])"
    by (subst elim.simps) (simp add: out vset_diff_def step del: upt_Suc delete_loop.simps)
  also have "\<dots> = Inr (map chain_edge [0..<N - 1])"
    by (rule Suc.hyps(1)) (use Suc.hyps(2) lt in auto)
  finally show ?case .
qed

lemma chain_free_nodes:
  assumes "0 < N"
    and ct: "\<forall>x < N. map_of ct x = Some (if 0 < x then [chain_edge (x - 1)] else [])"
  shows "free_nodes ct [0..<N] = Inr [0]"
proof -
  have "free_nodes ct [0..<N] = Inr (filter (\<lambda>n. map_of ct n = Some []) [0..<N])"
    by (rule free_nodes_filter) (use ct in auto)
  also have "filter (\<lambda>n. map_of ct n = Some []) [0..<N] = filter (\<lambda>n. n = 0) [0..<N]"
    by (rule filter_cong) (use ct in auto)
  also have "\<dots> = [0]" using assms(1) by (induction N) auto
  finally show ?thesis .
qed

lemma chain_is_acyclic:
  assumes "0 < N"
  shows "is_acyclic [0..<N] (map chain_edge (rev [0..<N - 1])) = Inr True"
proof -
  from chain_index [OF assms] obtain ct fn where
    run: "build_index (map chain_edge (rev [0..<N - 1])) (index_init [0..<N])
        (index_init [0..<N]) = Inr (ct, fn)" and
    ct: "\<forall>x < N. map_of ct x = Some (if 0 < x then [chain_edge (x - 1)] else [])" and
    fn: "\<forall>x < N. map_of fn x = Some (if Suc x < N then [chain_edge x] else [])"
    by blast
  have e: "elim ct fn [0] [] = Inr (map chain_edge [0..<N - 1])"
    using chain_elim [OF ct fn, of 0] assms by simp
  show ?thesis
    unfolding is_acyclic_def run by (simp add: chain_free_nodes [OF assms ct] e)
qed

lemma chain_init:
  assumes "0 < N" and "N - 1 \<le> depth"
  shows "DependencyGraph_init depth [0] (chain_plugins N) = Inr (chain_graph N)"
proof -
  have seeds: "nset [0::nat] = [0]" by (simp add: nset_def nset_add_def)
  have "build_vertices depth (chain_plugins N) 0 [0]
      = Inr (map chain_edge (rev [0..<N - 1]), [0] @ [Suc 0..<N])"
    by (rule chain_build) (use assms in auto)
  moreover have "[0] @ [Suc 0..<N] = [0..<N]" using assms(1) by (simp add: upt_conv_Cons)
  ultimately have gen: "generate_vertices depth (chain_plugins N) (rev (nset [0])) (nset [0])
      = Inr (map chain_edge (rev [0..<N - 1]), [0..<N])"
    unfolding seeds by (simp del: build_vertices.simps)
  show ?thesis
    unfolding DependencyGraph_init_def gen sum.case prod.case chain_vset
      chain_is_acyclic [OF assms(1)] chain_graph_def
    by simp
qed

lemma chain_init_fails:
  assumes "depth < N - 1"
  shows "DependencyGraph_init depth [0] (chain_plugins N) = Inl RecursionError"
proof -
  have seeds: "nset [0::nat] = [0]" by (simp add: nset_def nset_add_def)
  have "build_vertices depth (chain_plugins N) 0 [0] = Inl RecursionError"
    by (rule chain_build_fails) (use assms in auto)
  then have gen: "generate_vertices depth (chain_plugins N) (rev (nset [0])) (nset [0])
      = Inl RecursionError"
    unfolding seeds by (simp del: build_vertices.simps)
  show ?thesis unfolding DependencyGraph_init_def gen by simp
qed

lemma chain_query_step:
  "dependencies d (chain_graph N) n True =
     (if Suc n < N then dependencies_loop d (chain_graph N) [chain_edge n] True else Inr [])"
  unfolding dependencies.simps
  by (simp add: chain_graph_def chain_outgoing less_diff_conv)

lemma chain_query:
  "n < N \<Longrightarrow> N - Suc n \<le> d \<Longrightarrow> dependencies d (chain_graph N) n True = Inr [Suc n..<N]"
proof (induction k \<equiv> "N - Suc n" arbitrary: n d)
  case 0
  then show ?case by (simp add: chain_query_step del: dependencies.simps)
next
  case (Suc k)
  then have lt: "Suc n < N" by simp
  from Suc.prems(2) Suc.hyps(2) obtain d' where d: "d = Suc d'" by (cases d) auto
  have sub: "dependencies d' (chain_graph N) (Suc n) True = Inr [Suc (Suc n)..<N]"
    by (rule Suc.hyps(1)) (use Suc.hyps(2) Suc.prems(2) d lt in auto)
  have l: "[Suc n..<N] = Suc n # [Suc (Suc n)..<N]" using lt by (simp add: upt_conv_Cons)
  show ?case
    unfolding chain_query_step [of d N n] using lt
    by (simp add: d sub l del: dependencies.simps)
qed

lemma chain_query_fails:
  "d < N - Suc n \<Longrightarrow> dependencies d (chain_graph N) n True = Inl RecursionError"
proof (induction d arbitrary: n)
  case 0
  then have lt: "Suc n < N" by auto
  show ?case unfolding chain_query_step [of 0 N n] using lt
    by (simp del: dependencies.simps)
next
  case (Suc d)
  then have lt: "Suc n < N" by auto
  have sub: "dependencies d (chain_graph N) (Suc n) True = Inl RecursionError"
    by (rule Suc.IH) (use Suc.prems in auto)
  show ?case unfolding chain_query_step [of "Suc d" N n] using lt
    by (simp add: sub del: dependencies.simps)
qed


text \<open>
  Claim C3, as stated (discovery and the transitive query use an explicit worklist, so that
  no chain of some hundred nodes exhausts the stack), fails for the chain of 999 nodes:
  \<^verbatim>\<open>build_vertices\<close> and \<^verbatim>\<open>dependencies\<close> call themselves, once for every node of the
  chain, and a call depth of 996 nested calls, which is more than an interpreter limit of
  1000 frames leaves them, ends in \<^verbatim>\<open>RecursionError\<close>.
\<close>

theorem chain_999_exhausts_call_depth:
  "DependencyGraph_init 996 [0] (chain_plugins 999) = Inl RecursionError
   \<and> dependencies 996 (chain_graph 999) 0 True = Inl RecursionError"
  using chain_init_fails [of 996 999] chain_query_fails [of 996 999 0] by simp

text \<open>
  Claim C3, amended. Discovery and the transitive query recurse natively, one nested call
  for every node of a chain. For a chain of \<open>N\<close> nodes: when the call depth allows
  \<open>N - 1\<close> nested calls, construction discovers the \<open>N\<close> nodes and the \<open>N - 1\<close>
  vertices, the cycle check accepts them, and the transitive query on the head yields the
  \<open>N - 1\<close> descendants in order; with a smaller call depth construction and the query
  raise \<^verbatim>\<open>RecursionError\<close>.
\<close>

theorem chain_needs_call_depth:
  assumes "0 < N"
  shows "(N - 1 \<le> depth \<longrightarrow>
            (\<exists>g. DependencyGraph_init depth [0] (chain_plugins N) = Inr g
               \<and> nodes g = [0..<N] \<and> length (vertices g) = N - 1
               \<and> dependencies depth g 0 True = Inr [1..<N]))
       \<and> (depth < N - 1 \<longrightarrow>
            DependencyGraph_init depth [0] (chain_plugins N) = Inl RecursionError
            \<and> dependencies depth (chain_graph N) 0 True = Inl RecursionError)"
proof (intro conjI impI)
  assume enough: "N - 1 \<le> depth"
  have "DependencyGraph_init depth [0] (chain_plugins N) = Inr (chain_graph N)"
    using assms enough by (rule chain_init)
  moreover have "nodes (chain_graph N) = [0..<N]" "length (vertices (chain_graph N)) = N - 1"
    by (simp_all add: chain_graph_def)
  moreover have "dependencies depth (chain_graph N) 0 True = Inr [1..<N]"
    using chain_query [of 0 N depth] assms enough by simp
  ultimately show "\<exists>g. DependencyGraph_init depth [0] (chain_plugins N) = Inr g
               \<and> nodes g = [0..<N] \<and> length (vertices g) = N - 1
               \<and> dependencies depth g 0 True = Inr [1..<N]"
    by blast
next
  assume "depth < N - 1"
  then show "DependencyGraph_init depth [0] (chain_plugins N) = Inl RecursionError"
    by (rule chain_init_fails)
next
  assume "depth < N - 1"
  then show "dependencies depth (chain_graph N) 0 True = Inl RecursionError"
    using chain_query_fails [of depth N 0] by simp
qed

theorem chain_needs_call_depth_witness:
  "(\<exists>g. DependencyGraph_init 299 [0] (chain_plugins 300) = Inr g
       \<and> nodes g = [0..<300] \<and> length (vertices g) = 299
       \<and> dependencies 299 g 0 True = Inr [1..<300])
   \<and> DependencyGraph_init 298 [0] (chain_plugins 300) = Inl RecursionError
   \<and> dependencies 298 (chain_graph 300) 0 True = Inl RecursionError"
  using chain_needs_call_depth [of 300 299] chain_needs_call_depth [of 300 298]
  by (simp del: dependencies.simps upt_rec_numeral)

end
